theory Spec2Isabelle
  imports Main "HOL-Library.Word"
begin

unbundle bit_operations_syntax

section \<open>Platform primitives used by the block chain\<close>

text \<open>
  The block chain of \<^verbatim>\<open>types.ts\<close> is written against three services of its
  runtime: the SHA-256 digest of \<^verbatim>\<open>node:crypto\<close>, the Base64 codec of
  \<^verbatim>\<open>Buffer\<close>, and the calendar functions of \<^verbatim>\<open>Date\<close>. Each is
  modelled here as an executable function, following FIPS 180-4, the Node.js codec and
  ECMA-262 respectively. A \<^verbatim>\<open>Buffer\<close> is a list of bytes; a JavaScript string is a
  \<^typ>\<open>string\<close> (characters up to code 255).
\<close>

type_synonym byte = "8 word"
type_synonym Buffer = "byte list"
type_synonym u32 = "32 word"

subsection \<open>SHA-256 (FIPS 180-4)\<close>

definition rotr :: "nat \<Rightarrow> u32 \<Rightarrow> u32" where
  "rotr n x = drop_bit n x OR push_bit (32 - n) x"

definition Ch :: "u32 \<Rightarrow> u32 \<Rightarrow> u32 \<Rightarrow> u32" where
  "Ch x y z = (x AND y) XOR (NOT x AND z)"

definition Maj :: "u32 \<Rightarrow> u32 \<Rightarrow> u32 \<Rightarrow> u32" where
  "Maj x y z = (x AND y) XOR (x AND z) XOR (y AND z)"

definition Sigma0 :: "u32 \<Rightarrow> u32" where
  "Sigma0 x = rotr 2 x XOR rotr 13 x XOR rotr 22 x"

definition Sigma1 :: "u32 \<Rightarrow> u32" where
  "Sigma1 x = rotr 6 x XOR rotr 11 x XOR rotr 25 x"

definition sigma0 :: "u32 \<Rightarrow> u32" where
  "sigma0 x = rotr 7 x XOR rotr 18 x XOR drop_bit 3 x"

definition sigma1 :: "u32 \<Rightarrow> u32" where
  "sigma1 x = rotr 17 x XOR rotr 19 x XOR drop_bit 10 x"

text \<open>The sixty-four round constants, in the eight rows of the standard.\<close>

definition sha256_K :: "u32 list" where
  "sha256_K = concat
    [
     [0x428a2f98, 0x71374491, 0xb5c0fbcf, 0xe9b5dba5, 0x3956c25b, 0x59f111f1, 0x923f82a4, 0xab1c5ed5],
     [0xd807aa98, 0x12835b01, 0x243185be, 0x550c7dc3, 0x72be5d74, 0x80deb1fe, 0x9bdc06a7, 0xc19bf174],
     [0xe49b69c1, 0xefbe4786, 0x0fc19dc6, 0x240ca1cc, 0x2de92c6f, 0x4a7484aa, 0x5cb0a9dc, 0x76f988da],
     [0x983e5152, 0xa831c66d, 0xb00327c8, 0xbf597fc7, 0xc6e00bf3, 0xd5a79147, 0x06ca6351, 0x14292967],
     [0x27b70a85, 0x2e1b2138, 0x4d2c6dfc, 0x53380d13, 0x650a7354, 0x766a0abb, 0x81c2c92e, 0x92722c85],
     [0xa2bfe8a1, 0xa81a664b, 0xc24b8b70, 0xc76c51a3, 0xd192e819, 0xd6990624, 0xf40e3585, 0x106aa070],
     [0x19a4c116, 0x1e376c08, 0x2748774c, 0x34b0bcb5, 0x391c0cb3, 0x4ed8aa4a, 0x5b9cca4f, 0x682e6ff3],
     [0x748f82ee, 0x78a5636f, 0x84c87814, 0x8cc70208, 0x90befffa, 0xa4506ceb, 0xbef9a3f7, 0xc67178f2]
    ]"

type_synonym sha256_state = "u32 \<times> u32 \<times> u32 \<times> u32 \<times> u32 \<times> u32 \<times> u32 \<times> u32"

definition sha256_H0 :: sha256_state where
  "sha256_H0 =
    (0x6a09e667, 0xbb67ae85, 0x3c6ef372, 0xa54ff53a, 0x510e527f, 0x9b05688c, 0x1f83d9ab, 0x5be0cd19)"

text \<open>Padding: a 1 bit, zero bits up to 56 modulo 64 bytes, the bit length on 64 bits.\<close>

definition be64_bytes :: "64 word \<Rightarrow> Buffer" where
  "be64_bytes w = map (\<lambda>i. ucast (drop_bit (8 * (7 - i)) w)) [0..<8]"

definition sha256_pad :: "Buffer \<Rightarrow> Buffer" where
  "sha256_pad m =
    m @ [0x80] @ replicate ((64 - (length m + 9) mod 64) mod 64) 0 @ be64_bytes (word_of_nat (8 * length m))"

fun chunks :: "nat \<Rightarrow> 'a list \<Rightarrow> 'a list list" where
  "chunks n xs = (if n = 0 \<or> xs = [] then [] else take n xs # chunks n (drop n xs))"

declare chunks.simps [simp del]

definition be32_word :: "Buffer \<Rightarrow> u32" where
  "be32_word bs = foldl (\<lambda>acc b. push_bit 8 acc OR ucast b) 0 bs"

definition be32_bytes :: "u32 \<Rightarrow> Buffer" where
  "be32_bytes w = [ucast (drop_bit 24 w), ucast (drop_bit 16 w), ucast (drop_bit 8 w), ucast w]"

text \<open>The message schedule: sixteen words of the block, extended to sixty-four.\<close>

fun schedule_extend :: "nat \<Rightarrow> u32 list \<Rightarrow> u32 list" where
  "schedule_extend 0 w = w"
| "schedule_extend (Suc n) w =
     schedule_extend n
       (w @ [sigma1 (w ! (length w - 2)) + w ! (length w - 7)
             + sigma0 (w ! (length w - 15)) + w ! (length w - 16)])"

definition schedule :: "Buffer \<Rightarrow> u32 list" where
  "schedule block = schedule_extend 48 (map be32_word (chunks 4 block))"

fun sha256_round :: "u32 \<times> u32 \<Rightarrow> sha256_state \<Rightarrow> sha256_state" where
  "sha256_round (k, w) (a, b, c, d, e, f, g, h) =
     (let t1 = h + Sigma1 e + Ch e f g + k + w;
          t2 = Sigma0 a + Maj a b c
      in (t1 + t2, a, b, c, d + t1, e, f, g))"

fun sha256_add :: "sha256_state \<Rightarrow> sha256_state \<Rightarrow> sha256_state" where
  "sha256_add (a, b, c, d, e, f, g, h) (a', b', c', d', e', f', g', h') =
     (a + a', b + b', c + c', d + d', e + e', f + f', g + g', h + h')"

definition sha256_compress :: "Buffer \<Rightarrow> sha256_state \<Rightarrow> sha256_state" where
  "sha256_compress block st = sha256_add st (fold sha256_round (zip sha256_K (schedule block)) st)"

fun sha256_output :: "sha256_state \<Rightarrow> Buffer" where
  "sha256_output (a, b, c, d, e, f, g, h) = concat (map be32_bytes [a, b, c, d, e, f, g, h])"

definition sha256 :: "Buffer \<Rightarrow> Buffer" where
  "sha256 m = sha256_output (fold sha256_compress (chunks 64 (sha256_pad m)) sha256_H0)"

subsection \<open>Base64 (\<^verbatim>\<open>Buffer.toString('base64')\<close> and \<^verbatim>\<open>Buffer.from(s, 'base64')\<close>)\<close>

definition base64_table :: string where
  "base64_table = ''ABCDEFGHIJKLMNOPQRSTUVWXYZabcdefghijklmnopqrstuvwxyz0123456789+/''"

definition base64_char :: "byte \<Rightarrow> char" where
  "base64_char s = base64_table ! unat s"

text \<open>The encoder: three bytes give four characters; a last group of one or two bytes
  is padded with \<^verbatim>\<open>=\<close>.\<close>

fun Buffer_toString_base64 :: "Buffer \<Rightarrow> string" where
  "Buffer_toString_base64 (a # b # c # rest) =
     [base64_char (drop_bit 2 a),
      base64_char (push_bit 4 (a AND 3) OR drop_bit 4 b),
      base64_char (push_bit 2 (b AND 15) OR drop_bit 6 c),
      base64_char (c AND 63)] @ Buffer_toString_base64 rest"
| "Buffer_toString_base64 [a, b] =
     [base64_char (drop_bit 2 a),
      base64_char (push_bit 4 (a AND 3) OR drop_bit 4 b),
      base64_char (push_bit 2 (b AND 15)),
      CHR ''='']"
| "Buffer_toString_base64 [a] =
     [base64_char (drop_bit 2 a),
      base64_char (push_bit 4 (a AND 3)),
      CHR ''='', CHR ''='']"
| "Buffer_toString_base64 [] = []"

text \<open>
  The decoder of Node.js is lenient. It reads the standard and the URL-safe alphabet,
  skips every character that belongs to neither (white space included), stops at the
  first \<^verbatim>\<open>=\<close>, and never fails: a last group of two or three characters gives one
  or two bytes, a single left-over character gives none.
\<close>

definition unbase64 :: "char \<Rightarrow> byte option" where
  "unbase64 c =
     (let n = of_char c :: nat in
      if 65 \<le> n \<and> n \<le> 90 then Some (word_of_nat (n - 65))
      else if 97 \<le> n \<and> n \<le> 122 then Some (word_of_nat (n - 71))
      else if 48 \<le> n \<and> n \<le> 57 then Some (word_of_nat (n + 4))
      else if c = CHR ''+'' \<or> c = CHR ''-'' then Some 62
      else if c = CHR ''/'' \<or> c = CHR ''_'' then Some 63
      else None)"

fun decode_sextets :: "byte list \<Rightarrow> Buffer" where
  "decode_sextets (s0 # s1 # s2 # s3 # rest) =
     [push_bit 2 s0 OR drop_bit 4 s1,
      push_bit 4 (s1 AND 15) OR drop_bit 2 s2,
      push_bit 6 (s2 AND 3) OR s3] @ decode_sextets rest"
| "decode_sextets [s0, s1, s2] =
     [push_bit 2 s0 OR drop_bit 4 s1,
      push_bit 4 (s1 AND 15) OR drop_bit 2 s2]"
| "decode_sextets [s0, s1] = [push_bit 2 s0 OR drop_bit 4 s1]"
| "decode_sextets [s0] = []"
| "decode_sextets [] = []"

definition Buffer_from_base64 :: "string \<Rightarrow> Buffer" where
  "Buffer_from_base64 s =
     decode_sextets (List.map_filter unbase64 (takeWhile (\<lambda>c. c \<noteq> CHR ''='') s))"

subsection \<open>Strings: number conversion and UTF-8\<close>

text \<open>
  \<^verbatim>\<open>`${n}`\<close> for a number that holds an integer prints its decimal digits, with a
  leading minus sign when negative; \<^verbatim>\<open>NaN\<close> (here \<^term>\<open>None\<close>) prints as
  \<^verbatim>\<open>NaN\<close>. The integers of a chain (indexes, time values) stay far below
  \<open>10\<^sup>2\<^sup>1\<close>, where JavaScript would switch to exponent notation.
\<close>

fun digits :: "nat \<Rightarrow> string" where
  "digits n =
     (if n < 10 then [char_of (48 + n)] else digits (n div 10) @ [char_of (48 + n mod 10)])"

declare digits.simps [simp del]

definition Number_toString :: "int \<Rightarrow> string" where
  "Number_toString n = (if n < 0 then CHR ''-'' # digits (nat (- n)) else digits (nat n))"

definition Number_toString_opt :: "int option \<Rightarrow> string" where
  "Number_toString_opt n = (case n of None \<Rightarrow> ''NaN'' | Some v \<Rightarrow> Number_toString v)"

text \<open>\<^verbatim>\<open>hash.update(string)\<close> hashes the UTF-8 encoding of the string: one byte for a
  character below 128, two bytes for the others.\<close>

definition utf8_char :: "char \<Rightarrow> Buffer" where
  "utf8_char c =
     (let n = of_char c :: nat in
      if n < 128 then [word_of_nat n]
      else [word_of_nat (192 + n div 64), word_of_nat (128 + n mod 64)])"

definition utf8_encode :: "string \<Rightarrow> Buffer" where
  "utf8_encode s = concat (map utf8_char s)"

subsection \<open>Dates (ECMA-262, Date objects)\<close>

text \<open>
  A \<^verbatim>\<open>Date\<close> holds a time value: an integer number of milliseconds since
  1970-01-01T00:00:00Z, of absolute value at most \<open>8.64 \<times> 10\<^sup>1\<^sup>5\<close>. The clock
  (\<^verbatim>\<open>new Date()\<close>) always gives such a value, so the invalid date is not
  modelled as an input; a result that \<^verbatim>\<open>TimeClip\<close> rejects is \<^term>\<open>None\<close>, the
  model of \<^verbatim>\<open>NaN\<close>.
\<close>

type_synonym time_value = int

definition valid_time :: "time_value \<Rightarrow> bool" where
  "valid_time t = (\<bar>t\<bar> \<le> 8640000000000000)"

definition msPerDay :: int where "msPerDay = 86400000"
definition msPerHour :: int where "msPerHour = 3600000"
definition msPerMinute :: int where "msPerMinute = 60000"
definition msPerSecond :: int where "msPerSecond = 1000"

definition Day :: "time_value \<Rightarrow> int" where
  "Day t = t div msPerDay"

definition TimeWithinDay :: "time_value \<Rightarrow> int" where
  "TimeWithinDay t = t mod msPerDay"

definition DaysInYear :: "int \<Rightarrow> int" where
  "DaysInYear y =
     (if y mod 4 \<noteq> 0 then 365
      else if y mod 100 \<noteq> 0 then 366
      else if y mod 400 \<noteq> 0 then 365
      else 366)"

definition DayFromYear :: "int \<Rightarrow> int" where
  "DayFromYear y =
     365 * (y - 1970) + (y - 1969) div 4 - (y - 1901) div 100 + (y - 1601) div 400"

definition TimeFromYear :: "int \<Rightarrow> time_value" where
  "TimeFromYear y = msPerDay * DayFromYear y"

text \<open>
  ECMA-262 specifies \<^verbatim>\<open>YearFromTime(t)\<close> as the largest year \<open>y\<close> with
  \<open>TimeFromYear(y) \<le> t\<close>. It is computed here from the mean length of a year (146097
  days in 400 years), which is off by at most one year, and then adjusted; the lemma
  \<open>YearFromTime_spec\<close> below shows that this is the year ECMA-262 means.
\<close>

definition YearFromTime :: "time_value \<Rightarrow> int" where
  "YearFromTime t =
     (let d = Day t; y = 1970 + (400 * d) div 146097
      in if DayFromYear (y + 1) \<le> d then y + 1
         else if DayFromYear y \<le> d then y
         else y - 1)"

definition InLeapYear :: "time_value \<Rightarrow> int" where
  "InLeapYear t = (if DaysInYear (YearFromTime t) = 366 then 1 else 0)"

definition DayWithinYear :: "time_value \<Rightarrow> int" where
  "DayWithinYear t = Day t - DayFromYear (YearFromTime t)"

definition MonthFromTime :: "time_value \<Rightarrow> int" where
  "MonthFromTime t =
     (let d = DayWithinYear t; leap = InLeapYear t
      in if d < 31 then 0
         else if d < 59 + leap then 1
         else if d < 90 + leap then 2
         else if d < 120 + leap then 3
         else if d < 151 + leap then 4
         else if d < 181 + leap then 5
         else if d < 212 + leap then 6
         else if d < 243 + leap then 7
         else if d < 273 + leap then 8
         else if d < 304 + leap then 9
         else if d < 334 + leap then 10
         else 11)"

definition DateFromTime :: "time_value \<Rightarrow> int" where
  "DateFromTime t =
     (let d = DayWithinYear t; leap = InLeapYear t; m = MonthFromTime t
      in if m = 0 then d + 1
         else if m = 1 then d - 30
         else if m = 2 then d - 58 - leap
         else if m = 3 then d - 89 - leap
         else if m = 4 then d - 119 - leap
         else if m = 5 then d - 150 - leap
         else if m = 6 then d - 180 - leap
         else if m = 7 then d - 211 - leap
         else if m = 8 then d - 242 - leap
         else if m = 9 then d - 272 - leap
         else if m = 10 then d - 303 - leap
         else d - 333 - leap)"

definition HourFromTime :: "time_value \<Rightarrow> int" where
  "HourFromTime t = (t div msPerHour) mod 24"

definition MinFromTime :: "time_value \<Rightarrow> int" where
  "MinFromTime t = (t div msPerMinute) mod 60"

definition SecFromTime :: "time_value \<Rightarrow> int" where
  "SecFromTime t = (t div msPerSecond) mod 60"

definition MakeTime :: "int \<Rightarrow> int \<Rightarrow> int \<Rightarrow> int \<Rightarrow> int" where
  "MakeTime hour minute sec ms =
     hour * msPerHour + minute * msPerMinute + sec * msPerSecond + ms"

text \<open>
  \<^verbatim>\<open>MakeDay(year, month, date)\<close>: the day number of the first day of month
  \<open>month mod 12\<close> of year \<open>year + month div 12\<close>, plus \<open>date - 1\<close>. ECMA-262
  asks for a time value in that year and month with date 1; the lemma \<open>MakeDay_spec\<close>
  below shows that the day computed here is such a value.
\<close>

definition DaysBeforeMonth :: "int \<Rightarrow> int \<Rightarrow> int" where
  "DaysBeforeMonth leap m =
     (if m = 0 then 0
      else if m = 1 then 31
      else if m = 2 then 59 + leap
      else if m = 3 then 90 + leap
      else if m = 4 then 120 + leap
      else if m = 5 then 151 + leap
      else if m = 6 then 181 + leap
      else if m = 7 then 212 + leap
      else if m = 8 then 243 + leap
      else if m = 9 then 273 + leap
      else if m = 10 then 304 + leap
      else 334 + leap)"

definition MakeDay :: "int \<Rightarrow> int \<Rightarrow> int \<Rightarrow> int" where
  "MakeDay year month date =
     (let ym = year + month div 12; mn = month mod 12
      in DayFromYear ym + DaysBeforeMonth (if DaysInYear ym = 366 then 1 else 0) mn + date - 1)"

definition MakeDate :: "int \<Rightarrow> int \<Rightarrow> int" where
  "MakeDate day time = day * msPerDay + time"

definition TimeClip :: "int \<Rightarrow> time_value option" where
  "TimeClip t = (if \<bar>t\<bar> > 8640000000000000 then None else Some t)"

definition MakeFullYear :: "int \<Rightarrow> int" where
  "MakeFullYear y = (if 0 \<le> y \<and> y \<le> 99 then 1900 + y else y)"

definition Date_UTC :: "int \<Rightarrow> int \<Rightarrow> int \<Rightarrow> int \<Rightarrow> int \<Rightarrow> int \<Rightarrow> time_value option" where
  "Date_UTC year month date hours minutes seconds =
     TimeClip (MakeDate (MakeDay (MakeFullYear year) month date)
                        (MakeTime hours minutes seconds 0))"

definition getUTCFullYear :: "time_value \<Rightarrow> int" where
  "getUTCFullYear t = YearFromTime t"

definition getUTCMonth :: "time_value \<Rightarrow> int" where
  "getUTCMonth t = MonthFromTime t"

definition getUTCDate :: "time_value \<Rightarrow> int" where
  "getUTCDate t = DateFromTime t"

definition getUTCHours :: "time_value \<Rightarrow> int" where
  "getUTCHours t = HourFromTime t"

definition getUTCMinutes :: "time_value \<Rightarrow> int" where
  "getUTCMinutes t = MinFromTime t"

definition getUTCSeconds :: "time_value \<Rightarrow> int" where
  "getUTCSeconds t = SecFromTime t"

section \<open>The block: class \<^verbatim>\<open>BlockChainBlock\<close>\<close>

text \<open>
  A block holds its index, its payload (\<^verbatim>\<open>#data\<close>), a reference to its predecessor
  (\<^verbatim>\<open>#previousBlock\<close>, \<^term>\<open>None\<close> for \<^verbatim>\<open>undefined\<close>) and the time value
  computed by the constructor (\<^verbatim>\<open>#timestamp\<close>). No method of the class writes a
  field, so a reference to a block is modelled by the block itself.
\<close>

datatype BlockChainBlock =
  BlockChainBlock (index: int) (data_field: Buffer)
    (previousBlock_field: "BlockChainBlock option") (timestamp_field: "time_value option")

text \<open>The constructor; \<open>now\<close> is the time value of its last parameter, which defaults
  to the clock.\<close>

definition new_BlockChainBlock ::
    "int \<Rightarrow> Buffer \<Rightarrow> BlockChainBlock option \<Rightarrow> time_value \<Rightarrow> BlockChainBlock" where
  "new_BlockChainBlock idx payload previousBlock now =
     (let utcNow = Date_UTC (getUTCFullYear now) (getUTCMonth now) (getUTCDate now)
                            (getUTCHours now) (getUTCMinutes now) (getUTCSeconds now)
      in BlockChainBlock idx payload previousBlock utcNow)"

definition data :: "BlockChainBlock \<Rightarrow> string" where
  "data b = Buffer_toString_base64 (data_field b)"

definition timestamp :: "BlockChainBlock \<Rightarrow> time_value option" where
  "timestamp b = timestamp_field b"

text \<open>
  The getters \<^verbatim>\<open>hash\<close> and \<^verbatim>\<open>previousHash\<close> call each other along the chain of
  predecessors. \<^verbatim>\<open>x || ''\<close> gives the empty string when \<open>x\<close> is \<^verbatim>\<open>undefined\<close>
  or empty.
\<close>

fun hash :: "BlockChainBlock \<Rightarrow> string"
  and previousHash :: "BlockChainBlock \<Rightarrow> string" where
  "hash (BlockChainBlock idx payload prev ts) =
     Buffer_toString_base64 (sha256 (utf8_encode
       (Number_toString idx @ [CHR 0x0A]
        @ previousHash (BlockChainBlock idx payload prev ts) @ [CHR 0x0A]
        @ Number_toString_opt (timestamp (BlockChainBlock idx payload prev ts)) @ [CHR 0x0A]
        @ data (BlockChainBlock idx payload prev ts))))"
| "previousHash (BlockChainBlock idx payload None ts) = []"
| "previousHash (BlockChainBlock idx payload (Some p) ts) =
     (if hash p = [] then [] else hash p)"

text \<open>The definition of the hash in the words of the specification: the Base64 rendering
  of the SHA-256 digest of the UTF-8 encoding of the four fields, one per line.\<close>

definition hash_spec :: "int \<Rightarrow> string \<Rightarrow> time_value option \<Rightarrow> Buffer \<Rightarrow> string" where
  "hash_spec idx prevHash ts payload =
     Buffer_toString_base64 (sha256 (utf8_encode
       (Number_toString idx @ ''\<newline>'' @ prevHash @ ''\<newline>''
        @ Number_toString_opt ts @ ''\<newline>'' @ Buffer_toString_base64 payload)))"

section \<open>The chain: class \<^verbatim>\<open>ArrayBlockChain\<close>\<close>

text \<open>
  Arrays are mutable and shared by reference: \<^verbatim>\<open>push\<close> changes the array that
  \<^verbatim>\<open>#blocks\<close> refers to, while an iterator reads the array it made with
  \<^verbatim>\<open>[...this.#blocks]\<close>. The store maps a reference to the array's contents;
  references from \<open>next_ref\<close> on are unused.
\<close>

type_synonym ref = nat

record store =
  arrays :: "ref \<Rightarrow> BlockChainBlock list"
  next_ref :: ref

definition new_array :: "BlockChainBlock list \<Rightarrow> store \<Rightarrow> ref \<times> store" where
  "new_array xs h =
     (next_ref h, h\<lparr>arrays := (arrays h)(next_ref h := xs), next_ref := Suc (next_ref h)\<rparr>)"

definition push :: "ref \<Rightarrow> BlockChainBlock \<Rightarrow> store \<Rightarrow> store" where
  "push r b h = h\<lparr>arrays := (arrays h)(r := arrays h r @ [b])\<rparr>"

record ArrayBlockChain =
  blocks :: ref
  genesisBlock :: BlockChainBlock

text \<open>\<^verbatim>\<open>createNewBlockChain()\<close> runs the constructor: an empty array for
  \<^verbatim>\<open>#blocks\<close> and the genesis block, created at the time \<open>now\<close> of the clock.\<close>

definition createNewBlockChain :: "time_value \<Rightarrow> store \<Rightarrow> ArrayBlockChain \<times> store" where
  "createNewBlockChain now h =
     (let (r, h') = new_array [] h;
          newGenesisBlock = new_BlockChainBlock (- 1) [] None now
      in (\<lparr>blocks = r, genesisBlock = newGenesisBlock\<rparr>, h'))"

text \<open>The private getter \<^verbatim>\<open>#previousBlock\<close> of the chain: the last element of the
  array, or the genesis block when the array is empty (the read at index \<open>-1\<close> is
  \<^verbatim>\<open>undefined\<close>).\<close>

definition chain_previousBlock :: "ArrayBlockChain \<Rightarrow> store \<Rightarrow> BlockChainBlock" where
  "chain_previousBlock c h =
     (let bs = arrays h (blocks c)
      in if bs = [] then genesisBlock c else bs ! (length bs - 1))"

definition addBlock ::
    "ArrayBlockChain \<Rightarrow> string \<Rightarrow> time_value \<Rightarrow> store \<Rightarrow> BlockChainBlock \<times> store" where
  "addBlock c payload64 now h =
     (let previousBlock = chain_previousBlock c h;
          newGenesisBlock =
            new_BlockChainBlock (index previousBlock + 1) (Buffer_from_base64 payload64)
              (Some previousBlock) now
      in (newGenesisBlock, push (blocks c) newGenesisBlock h))"

text \<open>A sequence of calls of \<^verbatim>\<open>addBlock\<close>, each with its argument and the time of
  the clock at the call; the result lists the blocks the calls returned.\<close>

fun addBlocks ::
    "ArrayBlockChain \<Rightarrow> (string \<times> time_value) list \<Rightarrow> store \<Rightarrow> BlockChainBlock list \<times> store" where
  "addBlocks c [] h = ([], h)"
| "addBlocks c ((payload64, now) # calls) h =
     (let (b, h') = addBlock c payload64 now h;
          (bs, h'') = addBlocks c calls h'
      in (b # bs, h''))"

subsection \<open>Iteration\<close>







section \<open>Notions used in the properties\<close>

definition empty_store :: store where
  "empty_store = \<lparr>arrays = (\<lambda>r. []), next_ref = 0\<rparr>"

text \<open>The linkage of an array of blocks to a genesis block \<open>g\<close>: the block at position
  \<open>i\<close> has index \<open>i\<close> and refers to the block before it, the first one to \<open>g\<close>.\<close>

definition linked :: "BlockChainBlock \<Rightarrow> BlockChainBlock list \<Rightarrow> bool" where
  "linked g bs =
     (\<forall>i < length bs. index (bs ! i) = int i \<and>
        previousBlock_field (bs ! i) = Some (if i = 0 then g else bs ! (i - 1)))"




text \<open>The sextets the decoder reads from a string.\<close>

definition sextets_of :: "string \<Rightarrow> byte list" where
  "sextets_of s = List.map_filter unbase64 (takeWhile (\<lambda>c. c \<noteq> CHR ''='') s)"

section \<open>Facts about the platform primitives\<close>

lemma length_sha256_output: "length (sha256_output st) = 32"
  by (induct st rule: sha256_output.induct) (simp add: be32_bytes_def)

lemma length_sha256: "length (sha256 m) = 32"
  by (simp add: sha256_def length_sha256_output)

section \<open>The chain invariant\<close>

lemma Buffer_toString_base64_eq_Nil [simp]: "Buffer_toString_base64 xs = [] \<longleftrightarrow> xs = []"
  by (induction xs rule: Buffer_toString_base64.induct) simp_all

lemma hash_not_empty: "hash b \<noteq> []"
proof (cases b)
  case (BlockChainBlock idx payload prev ts)
  have "sha256 m \<noteq> []" for m
    using length_sha256 [of m] by auto
  then show ?thesis
    using BlockChainBlock by simp
qed

lemma previousHash_Some: "previousBlock_field b = Some p \<Longrightarrow> previousHash b = hash p"
  by (cases b) simp

lemma previousHash_None: "previousBlock_field b = None \<Longrightarrow> previousHash b = []"
  by (cases b) simp

lemma index_new [simp]: "index (new_BlockChainBlock i d p now) = i"
  and data_field_new [simp]: "data_field (new_BlockChainBlock i d p now) = d"
  and previousBlock_field_new [simp]: "previousBlock_field (new_BlockChainBlock i d p now) = p"
  by (simp_all add: new_BlockChainBlock_def Let_def)

lemma createNewBlockChain_facts:
  assumes "createNewBlockChain now h = (c, h1)"
  shows "arrays h1 (blocks c) = []" and "index (genesisBlock c) = - 1"
    and "previousBlock_field (genesisBlock c) = None"
    and "blocks c = next_ref h" and "next_ref h1 = Suc (next_ref h)"
    and "\<forall>r. r \<noteq> blocks c \<longrightarrow> arrays h1 r = arrays h r"
  using assms by (auto simp: createNewBlockChain_def new_array_def Let_def)

lemma addBlock_facts:
  assumes "addBlock c s now h = (b, h')"
  shows "arrays h' (blocks c) = arrays h (blocks c) @ [b]"
    and "\<forall>r. r \<noteq> blocks c \<longrightarrow> arrays h' r = arrays h r"
    and "next_ref h' = next_ref h"
    and "index b = index (chain_previousBlock c h) + 1"
    and "previousBlock_field b = Some (chain_previousBlock c h)"
    and "data_field b = Buffer_from_base64 s"
  using assms by (auto simp: addBlock_def push_def Let_def)

lemma addBlocks_facts:
  "addBlocks c calls h = (bs, h') \<Longrightarrow>
     arrays h' (blocks c) = arrays h (blocks c) @ bs \<and> length bs = length calls \<and>
     next_ref h' = next_ref h \<and> (\<forall>r. r \<noteq> blocks c \<longrightarrow> arrays h' r = arrays h r)"
proof (induction calls arbitrary: h bs h')
  case Nil
  then show ?case by simp
next
  case (Cons call calls)
  obtain s now where call: "call = (s, now)" by (cases call)
  obtain b h1 where step: "addBlock c s now h = (b, h1)" by (cases "addBlock c s now h")
  obtain bs1 h2 where rest: "addBlocks c calls h1 = (bs1, h2)" by (cases "addBlocks c calls h1")
  from Cons.prems call step rest have eq: "bs = b # bs1" "h' = h2" by simp_all
  from Cons.IH [OF rest] addBlock_facts [OF step] eq show ?case by simp
qed

lemma linked_Nil: "linked g []"
  by (simp add: linked_def)

lemma linked_addBlock:
  assumes "index (genesisBlock c) = - 1" and "linked (genesisBlock c) (arrays h (blocks c))"
    and "addBlock c s now h = (b, h')"
  shows "linked (genesisBlock c) (arrays h' (blocks c))"
proof -
  let ?bs = "arrays h (blocks c)"
  have prev: "chain_previousBlock c h = (if ?bs = [] then genesisBlock c else ?bs ! (length ?bs - 1))"
    by (simp add: chain_previousBlock_def Let_def)
  have idx: "index (chain_previousBlock c h) = int (length ?bs) - 1"
  proof (cases "?bs = []")
    case True
    then show ?thesis using prev assms(1) by simp
  next
    case False
    then have "length ?bs - 1 < length ?bs" by simp
    with assms(2) have "index (?bs ! (length ?bs - 1)) = int (length ?bs - 1)"
      unfolding linked_def by blast
    then show ?thesis using prev False by (simp add: of_nat_diff Suc_leI)
  qed
  show ?thesis
    unfolding linked_def
  proof (intro allI impI)
    fix i assume "i < length (arrays h' (blocks c))"
    then have i: "i < Suc (length ?bs)" using addBlock_facts(1) [OF assms(3)] by simp
    show "index (arrays h' (blocks c) ! i) = int i \<and>
          previousBlock_field (arrays h' (blocks c) ! i) =
            Some (if i = 0 then genesisBlock c else arrays h' (blocks c) ! (i - 1))"
    proof (cases "i < length ?bs")
      case True
      then show ?thesis
        using assms(2) addBlock_facts(1) [OF assms(3)]
        by (auto simp: linked_def nth_append)
    next
      case False
      with i have "i = length ?bs" by simp
      then show ?thesis
        using addBlock_facts [OF assms(3)] idx prev
        by (auto simp: nth_append)
    qed
  qed
qed

lemma linked_addBlocks:
  "index (genesisBlock c) = - 1 \<Longrightarrow> linked (genesisBlock c) (arrays h (blocks c)) \<Longrightarrow>
   addBlocks c calls h = (bs, h') \<Longrightarrow> linked (genesisBlock c) (arrays h' (blocks c))"
proof (induction calls arbitrary: h bs h')
  case Nil
  then show ?case by simp
next
  case (Cons call calls)
  obtain s now where call: "call = (s, now)" by (cases call)
  obtain b h1 where step: "addBlock c s now h = (b, h1)" by (cases "addBlock c s now h")
  obtain bs1 h2 where rest: "addBlocks c calls h1 = (bs1, h2)" by (cases "addBlocks c calls h1")
  from Cons.prems(3) call step rest have eq: "h' = h2" by simp
  have "linked (genesisBlock c) (arrays h1 (blocks c))"
    using linked_addBlock [OF Cons.prems(1,2) step] .
  from Cons.IH [OF Cons.prems(1) this rest] eq show ?case by simp
qed

lemma fresh_chain_linked:
  assumes "createNewBlockChain now0 h0 = (c, h1)" and "addBlocks c calls h1 = (bs, h2)"
  shows "linked (genesisBlock c) (arrays h2 (blocks c))" and "arrays h2 (blocks c) = bs"
    and "length bs = length calls"
proof -
  note cf = createNewBlockChain_facts [OF assms(1)]
  have "linked (genesisBlock c) (arrays h1 (blocks c))" using cf(1) by (simp add: linked_Nil)
  from linked_addBlocks [OF cf(2) this assms(2)]
  show "linked (genesisBlock c) (arrays h2 (blocks c))" .
  from addBlocks_facts [OF assms(2)] cf(1)
  show "arrays h2 (blocks c) = bs" "length bs = length calls" by simp_all
qed

section \<open>Iterators and the store\<close>









section \<open>The Base64 codec\<close>

lemma byte_masks: "(3::byte) = mask 2" "(15::byte) = mask 4" "(63::byte) = mask 6"
  by (simp_all add: mask_eq_exp_minus_1)

lemma byte_eqI:
  fixes x y :: byte
  assumes "bit x 0 = bit y 0" "bit x 1 = bit y 1" "bit x 2 = bit y 2" "bit x 3 = bit y 3"
    "bit x 4 = bit y 4" "bit x 5 = bit y 5" "bit x 6 = bit y 6" "bit x 7 = bit y 7"
  shows "x = y"
proof (rule bit_word_eqI)
  fix n assume "n < LENGTH(8)"
  then have "n \<in> {0, 1, 2, 3, 4, 5, 6, 7}"
    by auto
  then show "bit x n = bit y n" using assms by auto
qed

lemma dec3:
  fixes a b c :: byte
  shows "push_bit 2 (drop_bit 2 a) OR drop_bit 4 (push_bit 4 (a AND 3) OR drop_bit 4 b) = a"
    and "push_bit 4 ((push_bit 4 (a AND 3) OR drop_bit 4 b) AND 15)
           OR drop_bit 2 (push_bit 2 (b AND 15) OR drop_bit 6 c) = b"
    and "push_bit 6 ((push_bit 2 (b AND 15) OR drop_bit 6 c) AND 3) OR (c AND 63) = c"
  unfolding byte_masks
  by (rule byte_eqI; simp add: bit_simps)+

lemma dec2:
  fixes a b :: byte
  shows "push_bit 4 ((push_bit 4 (a AND 3) OR drop_bit 4 b) AND 15)
           OR drop_bit 2 (push_bit 2 (b AND 15)) = b"
  unfolding byte_masks
  by (rule byte_eqI; simp add: bit_simps)

lemma dec1:
  fixes a :: byte
  shows "push_bit 2 (drop_bit 2 a) OR drop_bit 4 (push_bit 4 (a AND 3)) = a"
  unfolding byte_masks
  by (rule byte_eqI; simp add: bit_simps)

lemma sextet_bound:
  fixes a b c :: byte
  shows "unat (drop_bit 2 a) < 64"
    and "unat (push_bit 4 (a AND 3) OR drop_bit 4 b) < 64"
    and "unat (push_bit 2 (b AND 15) OR drop_bit 6 c) < 64"
    and "unat (c AND 63) < 64"
    and "unat (push_bit 2 (b AND 15)) < 64"
    and "unat (push_bit 4 (a AND 3)) < 64"
proof -
  have tb: "unat x < 64" if "take_bit 6 x = x" for x :: byte
  proof -
    have "unat (take_bit 6 x) < 2 ^ 6"
      unfolding unsigned_take_bit_eq by (rule take_bit_nat_less_exp)
    then show ?thesis using that by simp
  qed
  show "unat (drop_bit 2 a) < 64"
    by (rule tb, rule byte_eqI; auto simp: bit_simps dest: bit_imp_le_length)
  show "unat (push_bit 4 (a AND 3) OR drop_bit 4 b) < 64"
    unfolding byte_masks by (rule tb, rule byte_eqI; auto simp: bit_simps dest: bit_imp_le_length)
  show "unat (push_bit 2 (b AND 15) OR drop_bit 6 c) < 64"
    unfolding byte_masks by (rule tb, rule byte_eqI; auto simp: bit_simps dest: bit_imp_le_length)
  show "unat (c AND 63) < 64"
    unfolding byte_masks by (rule tb, rule byte_eqI; auto simp: bit_simps dest: bit_imp_le_length)
  show "unat (push_bit 2 (b AND 15)) < 64"
    unfolding byte_masks by (rule tb, rule byte_eqI; auto simp: bit_simps dest: bit_imp_le_length)
  show "unat (push_bit 4 (a AND 3)) < 64"
    unfolding byte_masks by (rule tb, rule byte_eqI; auto simp: bit_simps dest: bit_imp_le_length)
qed

lemma unbase64_table_map:
  "map unbase64 base64_table = map (\<lambda>n. Some (word_of_nat n)) [0..<64]"
  by (simp add: base64_table_def unbase64_def upt_rec)

lemma table_no_pad: "CHR ''='' \<notin> set base64_table"
  by (simp add: base64_table_def)

lemma length_base64_table: "length base64_table = 64"
  by (simp add: base64_table_def)

lemma unbase64_base64_char:
  assumes "unat s < 64"
  shows "unbase64 (base64_char s) = Some s" and "base64_char s \<noteq> CHR ''=''"
proof -
  have n: "unat s < length base64_table" using assms by (simp add: length_base64_table)
  have "unbase64 (base64_table ! unat s) = map unbase64 base64_table ! unat s"
    using n by simp
  also have "\<dots> = Some (word_of_nat (unat s))"
    unfolding unbase64_table_map using assms by simp
  finally show "unbase64 (base64_char s) = Some s" by (simp add: base64_char_def)
  have "base64_table ! unat s \<in> set base64_table" using n by (rule nth_mem)
  with table_no_pad show "base64_char s \<noteq> CHR ''=''"
    by (auto simp: base64_char_def)
qed

lemma sextets_of_simps:
  "sextets_of [] = []"
  "sextets_of (CHR ''='' # rest) = []"
  "unat s < 64 \<Longrightarrow> sextets_of (base64_char s # rest) = s # sextets_of rest"
  by (simp_all add: sextets_of_def List.map_filter_simps unbase64_base64_char)

lemma Buffer_from_base64_sextets: "Buffer_from_base64 s = decode_sextets (sextets_of s)"
  by (simp add: Buffer_from_base64_def sextets_of_def)

lemma base64_roundtrip: "Buffer_from_base64 (Buffer_toString_base64 bs) = bs"
proof (induction bs rule: Buffer_toString_base64.induct)
  case (1 a b c rest)
  have "sextets_of (Buffer_toString_base64 (a # b # c # rest)) =
          drop_bit 2 a # (push_bit 4 (a AND 3) OR drop_bit 4 b)
          # (push_bit 2 (b AND 15) OR drop_bit 6 c) # (c AND 63)
          # sextets_of (Buffer_toString_base64 rest)"
    by (simp only: Buffer_toString_base64.simps append_Cons append_Nil
          sextets_of_simps sextet_bound)
  then show ?case
    using "1.IH"
    by (simp only: Buffer_from_base64_sextets decode_sextets.simps dec3 append_Cons append_Nil)
next
  case (2 a b)
  have "sextets_of (Buffer_toString_base64 [a, b]) =
          [drop_bit 2 a, push_bit 4 (a AND 3) OR drop_bit 4 b, push_bit 2 (b AND 15)]"
    by (simp only: Buffer_toString_base64.simps sextets_of_simps sextet_bound)
  then show ?case
    by (simp only: Buffer_from_base64_sextets decode_sextets.simps dec3 dec2)
next
  case (3 a)
  have "sextets_of (Buffer_toString_base64 [a]) = [drop_bit 2 a, push_bit 4 (a AND 3)]"
    by (simp only: Buffer_toString_base64.simps sextets_of_simps sextet_bound)
  then show ?case
    by (simp only: Buffer_from_base64_sextets decode_sextets.simps dec1)
next
  case 4
  show ?case
    by (simp add: Buffer_from_base64_sextets sextets_of_simps)
qed

lemma addBlock_data_field:
  "data_field (fst (addBlock c encoded now h)) = Buffer_from_base64 encoded"
  by (simp add: addBlock_def Let_def)

section \<open>The calendar functions\<close>

lemma div_bounds:
  fixes x k :: int
  assumes "0 < k"
  shows "k * (x div k) \<le> x" and "x < k * (x div k) + k"
proof -
  have "x = k * (x div k) + x mod k" by simp
  moreover have "0 \<le> x mod k" "x mod k < k" using assms by simp_all
  ultimately show "k * (x div k) \<le> x" and "x < k * (x div k) + k" by linarith+
qed

lemma div4: "4 * (x div 4) \<le> x" "x < 4 * (x div 4) + 4" for x :: int
  by (rule div_bounds, simp)+

lemma div100: "100 * (x div 100) \<le> x" "x < 100 * (x div 100) + 100" for x :: int
  by (rule div_bounds, simp)+

lemma div400: "400 * (x div 400) \<le> x" "x < 400 * (x div 400) + 400" for x :: int
  by (rule div_bounds, simp)+

lemma year_upper_lin:
  fixes q d a b c :: int
  assumes "400 * d < 146097 * (q + 1)" "q + 3 < 4 * a + 4" "100 * b \<le> q + 71"
    "q + 371 < 400 * c + 400"
  shows "d < 365 * (q + 2) + a - b + c"
proof -
  have "400 * d < 400 * (365 * (q + 2) + a - b + c)"
    using assms by (simp add: algebra_simps)
  then show ?thesis by simp
qed

lemma year_upper:
  fixes q d :: int
  assumes "400 * d < 146097 * (q + 1)"
  shows "d < 365 * (q + 2) + (q + 3) div 4 - (q + 71) div 100 + (q + 371) div 400"
  by (rule year_upper_lin [OF assms div4(2) div100(1) div400(2)])

lemma year_lower_lin:
  fixes q d a b c :: int
  assumes "146097 * q \<le> 400 * d" "4 * a \<le> q" "q + 68 < 100 * b + 100" "400 * c \<le> q + 368"
  shows "365 * (q - 1) + a - b + c \<le> d"
proof -
  have "400 * (365 * (q - 1) + a - b + c) \<le> 400 * d"
    using assms by (simp add: algebra_simps)
  then show ?thesis by simp
qed

lemma year_lower:
  fixes q d :: int
  assumes "146097 * q \<le> 400 * d"
  shows "365 * (q - 1) + q div 4 - (q + 68) div 100 + (q + 368) div 400 \<le> d"
  by (rule year_lower_lin [OF assms div4(1) div100(2) div400(1)])

lemma div_step:
  fixes x k :: int
  assumes "0 < k"
  shows "(x + 1) div k = x div k + (if (x + 1) mod k = 0 then 1 else 0)"
proof (cases "(x + 1) mod k = 0")
  case True
  then have "x + 1 = k * ((x + 1) div k)" by (metis mult_div_mod_eq add.right_neutral)
  then have x: "x = k * ((x + 1) div k - 1) + (k - 1)" by (simp add: algebra_simps)
  have "x div k = (x + 1) div k - 1"
    by (subst x) (use assms in \<open>simp add: div_pos_pos_trivial\<close>)
  then show ?thesis using True by simp
next
  case False
  have r: "0 < (x + 1) mod k" "(x + 1) mod k < k"
    using pos_mod_sign [OF assms, of "x + 1"] pos_mod_bound [OF assms, of "x + 1"] False
    by linarith+
  have "x = k * ((x + 1) div k) + ((x + 1) mod k - 1)"
    using mult_div_mod_eq [of k "x + 1"] by linarith
  then have "x div k = (k * ((x + 1) div k) + ((x + 1) mod k - 1)) div k" by simp
  also have "\<dots> = (x + 1) div k"
  proof -
    have "((x + 1) mod k - 1) div k = 0"
      using r by (intro div_pos_pos_trivial) linarith+
    then show ?thesis using assms by simp
  qed
  finally show ?thesis using False by simp
qed

lemma mod_shift:
  "(y - 1968) mod 4 = y mod 4" "(y - 1900) mod 100 = y mod 100" "(y - 1600) mod 400 = y mod 400"
  for y :: int
  using mod_mult_self2 [of y 4 "- 492"] mod_mult_self2 [of y 100 "- 19"]
    mod_mult_self2 [of y 400 "- 4"]
  by simp_all

lemma mod_100_4: "y mod 100 = 0 \<Longrightarrow> y mod 4 = 0" for y :: int
  by presburger

lemma mod_400_100: "y mod 400 = 0 \<Longrightarrow> y mod 100 = 0" for y :: int
  by presburger

lemma DayFromYear_step: "DayFromYear (y + 1) = DayFromYear y + DaysInYear y"
proof -
  have a: "(y + 1 - 1969) div 4 = (y - 1969) div 4 + (if y mod 4 = 0 then 1 else 0)"
    using div_step [of 4 "y - 1969"] mod_shift(1) [of y] by (simp add: algebra_simps)
  have b: "(y + 1 - 1901) div 100 = (y - 1901) div 100 + (if y mod 100 = 0 then 1 else 0)"
    using div_step [of 100 "y - 1901"] mod_shift(2) [of y] by (simp add: algebra_simps)
  have c: "(y + 1 - 1601) div 400 = (y - 1601) div 400 + (if y mod 400 = 0 then 1 else 0)"
    using div_step [of 400 "y - 1601"] mod_shift(3) [of y] by (simp add: algebra_simps)
  show ?thesis
    unfolding DayFromYear_def DaysInYear_def a b c
    using mod_100_4 [of y] mod_400_100 [of y] by auto
qed

lemma DaysInYear_range: "DaysInYear y = 365 \<or> DaysInYear y = 366"
  by (simp add: DaysInYear_def)

lemma DayFromYear_mono: "y \<le> z \<Longrightarrow> DayFromYear y \<le> DayFromYear z"
proof (induction z rule: int_ge_induct)
  case base
  show ?case by simp
next
  case (step i)
  have "DayFromYear i \<le> DayFromYear (i + 1)"
    using DayFromYear_step [of i] DaysInYear_range [of i] by linarith
  with step.IH show ?case by simp
qed

lemma YearFromTime_days:
  "DayFromYear (YearFromTime t) \<le> Day t \<and> Day t < DayFromYear (YearFromTime t + 1)"
proof -
  define d where "d = Day t"
  define q where "q = (400 * d) div 146097"
  have qb: "146097 * q \<le> 400 * d" "400 * d < 146097 * (q + 1)"
    using div_bounds [of 146097 "400 * d"] by (simp_all add: q_def algebra_simps)
  have up: "d < DayFromYear (1970 + q + 2)"
    using year_upper [OF qb(2)] by (simp add: DayFromYear_def algebra_simps)
  have lo: "DayFromYear (1970 + q - 1) \<le> d"
    using year_lower [OF qb(1)] by (simp add: DayFromYear_def algebra_simps)
  have y: "YearFromTime t =
      (if DayFromYear (1970 + q + 1) \<le> d then 1970 + q + 1
       else if DayFromYear (1970 + q) \<le> d then 1970 + q else 1970 + q - 1)"
    by (simp add: YearFromTime_def Let_def d_def q_def)
  show ?thesis
    unfolding y d_def [symmetric] using up lo by (auto simp: algebra_simps)
qed

lemma YearFromTime_spec:
  "TimeFromYear (YearFromTime t) \<le> t \<and> (\<forall>y. TimeFromYear y \<le> t \<longrightarrow> y \<le> YearFromTime t)"
proof -
  note b = div_bounds [of msPerDay t]
  have k: "0 < msPerDay" by (simp add: msPerDay_def)
  have d: "msPerDay * Day t \<le> t" "t < msPerDay * Day t + msPerDay"
    using b k by (simp_all add: Day_def)
  have "msPerDay * DayFromYear (YearFromTime t) \<le> msPerDay * Day t"
    using YearFromTime_days [of t] k by simp
  then have 1: "TimeFromYear (YearFromTime t) \<le> t"
    using d(1) by (simp add: TimeFromYear_def)
  have 2: "y \<le> YearFromTime t" if "TimeFromYear y \<le> t" for y
  proof (rule ccontr)
    assume "\<not> y \<le> YearFromTime t"
    then have "YearFromTime t + 1 \<le> y" by simp
    then have "DayFromYear (YearFromTime t + 1) \<le> DayFromYear y" by (rule DayFromYear_mono)
    then have "Day t + 1 \<le> DayFromYear y" using YearFromTime_days [of t] by linarith
    then have "msPerDay * (Day t + 1) \<le> msPerDay * DayFromYear y" using k by simp
    then have "t < TimeFromYear y" using d(2) by (simp add: TimeFromYear_def algebra_simps)
    with that show False by simp
  qed
  from 1 2 show ?thesis by blast
qed

lemma MonthFromTime_range: "0 \<le> MonthFromTime t \<and> MonthFromTime t \<le> 11"
  by (simp add: MonthFromTime_def Let_def)

lemma MakeDay_fields:
  "MakeDay (YearFromTime t) (MonthFromTime t) (DateFromTime t) = Day t"
proof -
  have m: "MonthFromTime t div 12 = 0" "MonthFromTime t mod 12 = MonthFromTime t"
    using MonthFromTime_range [of t] by simp_all
  have "DaysBeforeMonth (InLeapYear t) (MonthFromTime t) + DateFromTime t - 1 = DayWithinYear t"
    by (simp add: DaysBeforeMonth_def DateFromTime_def Let_def)
  then show ?thesis
    by (simp add: MakeDay_def m Let_def InLeapYear_def DayWithinYear_def)
qed

lemma MakeTime_fields:
  "MakeTime (HourFromTime t) (MinFromTime t) (SecFromTime t) 0 = TimeWithinDay t - t mod 1000"
proof -
  define s where "s = t div 1000"
  have h: "t div 3600000 = s div 3600" and m: "t div 60000 = s div 60"
    unfolding s_def by (simp_all add: zdiv_zmult2_eq [symmetric])
  have d: "t mod 86400000 = 1000 * (s mod 86400) + t mod 1000"
    unfolding s_def using zmod_zmult2_eq [of 86400 t 1000] by simp
  have "s mod 3600 = 60 * (s div 60 mod 60) + s mod 60"
    using zmod_zmult2_eq [of 60 s 60] by simp
  moreover have "s mod 86400 = 3600 * (s div 3600 mod 24) + s mod 3600"
    using zmod_zmult2_eq [of 24 s 3600] by simp
  ultimately have "s mod 86400 = 3600 * (s div 3600 mod 24) + 60 * (s div 60 mod 60) + s mod 60"
    by simp
  then show ?thesis
    unfolding MakeTime_def HourFromTime_def MinFromTime_def SecFromTime_def TimeWithinDay_def
        msPerDay_def msPerHour_def msPerMinute_def msPerSecond_def h m d s_def [symmetric]
    by simp
qed

lemma MakeDate_truncated:
  "MakeDate (Day t) (TimeWithinDay t - t mod 1000) = t - t mod 1000"
  by (simp add: MakeDate_def Day_def TimeWithinDay_def)

lemma truncated_eq: "t - t mod 1000 = 1000 * (t div 1000)" for t :: int
  by (simp add: minus_mod_eq_mult_div)

lemma Date_UTC_fields:
  assumes "\<not> (0 \<le> getUTCFullYear t \<and> getUTCFullYear t \<le> 99)"
  shows "Date_UTC (getUTCFullYear t) (getUTCMonth t) (getUTCDate t)
           (getUTCHours t) (getUTCMinutes t) (getUTCSeconds t) = TimeClip (1000 * (t div 1000))"
proof -
  have "MakeFullYear (getUTCFullYear t) = YearFromTime t"
    using assms by (auto simp: MakeFullYear_def getUTCFullYear_def)
  then show ?thesis
    unfolding Date_UTC_def
    by (simp only: getUTCFullYear_def getUTCMonth_def getUTCDate_def
        getUTCHours_def getUTCMinutes_def getUTCSeconds_def
        MakeDay_fields MakeTime_fields MakeDate_truncated truncated_eq)
qed

lemma TimeClip_truncated:
  assumes "valid_time t"
  shows "TimeClip (1000 * (t div 1000)) = Some (1000 * (t div 1000))"
proof -
  have "1000 * (t div 1000) \<le> t"
    using truncated_eq [of t, symmetric] by simp
  moreover have "- 8640000000000000 \<le> 1000 * (t div 1000)"
  proof -
    have "- 8640000000000000 \<le> t" using assms by (simp add: valid_time_def)
    then have "(- 8640000000000000) div 1000 \<le> t div 1000" by (rule zdiv_mono1) simp
    then show ?thesis by simp
  qed
  moreover have "t \<le> 8640000000000000" using assms by (simp add: valid_time_def)
  ultimately show ?thesis by (simp add: TimeClip_def)
qed

lemma DayWithinYear_range: "0 \<le> DayWithinYear t \<and> DayWithinYear t < 366"
  using YearFromTime_days [of t] DayFromYear_step [of "YearFromTime t"]
    DaysInYear_range [of "YearFromTime t"]
  by (auto simp: DayWithinYear_def)

lemma DaysBeforeMonth_range:
  "0 \<le> l \<Longrightarrow> l \<le> 1 \<Longrightarrow> 0 \<le> DaysBeforeMonth l m \<and> DaysBeforeMonth l m \<le> 335"
  by (simp add: DaysBeforeMonth_def)

lemma InLeapYear_range: "0 \<le> InLeapYear t \<and> InLeapYear t \<le> 1"
  by (simp add: InLeapYear_def)

lemma DateFromTime_eq:
  "DateFromTime t = DayWithinYear t - DaysBeforeMonth (InLeapYear t) (MonthFromTime t) + 1"
  by (simp add: DaysBeforeMonth_def DateFromTime_def Let_def)

lemma TimeWithinDay_range: "0 \<le> TimeWithinDay t \<and> TimeWithinDay t < 86400000"
  by (simp add: TimeWithinDay_def msPerDay_def)

lemma Date_UTC_multiple:
  assumes "Date_UTC y m d h mi s = Some v"
  shows "v mod 1000 = 0"
proof -
  have "v = MakeDay (MakeFullYear y) m d * 86400000 + (h * 3600000 + mi * 60000 + s * 1000)"
    using assms
    by (simp add: Date_UTC_def TimeClip_def MakeDate_def MakeTime_def msPerDay_def msPerHour_def
        msPerMinute_def msPerSecond_def split: if_splits)
  then have "v = 1000 * (MakeDay (MakeFullYear y) m d * 86400 + (h * 3600 + mi * 60 + s))"
    by simp
  then show ?thesis by simp
qed

lemma Date_UTC_fields_defined:
  assumes "valid_time t"
  shows "\<exists>v. Date_UTC (getUTCFullYear t) (getUTCMonth t) (getUTCDate t)
           (getUTCHours t) (getUTCMinutes t) (getUTCSeconds t) = Some v"
proof (cases "0 \<le> getUTCFullYear t \<and> getUTCFullYear t \<le> 99")
  case False
  then show ?thesis
    using Date_UTC_fields [OF False] TimeClip_truncated [OF assms] by simp
next
  case True
  define Y where "Y = 1900 + YearFromTime t"
  define l where "l = (if DaysInYear Y = 366 then 1 else 0 :: int)"
  have Y: "1900 \<le> Y" "Y \<le> 1999" using True by (simp_all add: Y_def getUTCFullYear_def)
  have "DayFromYear 1900 \<le> DayFromYear Y" "DayFromYear Y \<le> DayFromYear 1999"
    using Y by (simp_all add: DayFromYear_mono)
  then have dy: "- 25567 \<le> DayFromYear Y" "DayFromYear Y \<le> 10592"
    by (simp_all add: DayFromYear_def)
  have m: "MonthFromTime t div 12 = 0" "MonthFromTime t mod 12 = MonthFromTime t"
    using MonthFromTime_range [of t] by simp_all
  have md: "MakeDay Y (MonthFromTime t) (DateFromTime t) =
      DayFromYear Y + DaysBeforeMonth l (MonthFromTime t) + DayWithinYear t
        - DaysBeforeMonth (InLeapYear t) (MonthFromTime t)"
    by (simp add: MakeDay_def m Let_def l_def DateFromTime_eq)
  have l: "0 \<le> l" "l \<le> 1" by (simp_all add: l_def)
  note r1 = DaysBeforeMonth_range [OF l, of "MonthFromTime t"]
  note r2 = DaysBeforeMonth_range [of "InLeapYear t" "MonthFromTime t"] InLeapYear_range [of t]
  note r3 = DayWithinYear_range [of t]
  have mdb: "- 26000 \<le> MakeDay Y (MonthFromTime t) (DateFromTime t)"
      "MakeDay Y (MonthFromTime t) (DateFromTime t) \<le> 12000"
    unfolding md using dy r1 r2 r3 by linarith+
  have tm: "0 \<le> TimeWithinDay t - t mod 1000" "TimeWithinDay t - t mod 1000 < 86400000"
  proof -
    have "TimeWithinDay t - t mod 1000 = MakeTime (HourFromTime t) (MinFromTime t) (SecFromTime t) 0"
      by (simp add: MakeTime_fields)
    also have "0 \<le> \<dots>"
      by (simp add: MakeTime_def HourFromTime_def MinFromTime_def SecFromTime_def
          msPerHour_def msPerMinute_def msPerSecond_def)
    finally show "0 \<le> TimeWithinDay t - t mod 1000" .
    have "0 \<le> t mod 1000" by simp
    then show "TimeWithinDay t - t mod 1000 < 86400000"
      using TimeWithinDay_range [of t] by linarith
  qed
  have full: "MakeFullYear (getUTCFullYear t) = Y"
    using True by (simp add: MakeFullYear_def Y_def getUTCFullYear_def)
  have "\<bar>MakeDate (MakeDay Y (MonthFromTime t) (DateFromTime t))
          (TimeWithinDay t - t mod 1000)\<bar> \<le> 8640000000000000"
    unfolding MakeDate_def msPerDay_def using mdb tm by linarith
  then show ?thesis
    unfolding Date_UTC_def full
    by (simp add: getUTCMonth_def getUTCDate_def getUTCHours_def getUTCMinutes_def
        getUTCSeconds_def MakeTime_fields TimeClip_def)
qed

lemma YearFromTime_epoch: "0 \<le> t \<Longrightarrow> 1970 \<le> YearFromTime t"
proof -
  assume "0 \<le> t"
  moreover have "TimeFromYear 1970 = 0" by (simp add: TimeFromYear_def DayFromYear_def)
  ultimately show ?thesis using YearFromTime_spec [of t] by simp
qed

lemma timestamp_new:
  "timestamp (new_BlockChainBlock idx payload prev now) =
     Date_UTC (getUTCFullYear now) (getUTCMonth now) (getUTCDate now)
              (getUTCHours now) (getUTCMinutes now) (getUTCSeconds now)"
  by (simp add: timestamp_def new_BlockChainBlock_def)

text \<open>\<^const>\<open>MakeDay\<close> meets its specification: the day it gives for date 1 lies in the
  year and month asked for.\<close>

lemma YearFromTime_unique:
  assumes "DayFromYear y \<le> Day t" and "Day t < DayFromYear (y + 1)"
  shows "YearFromTime t = y"
proof -
  note b = YearFromTime_days [of t]
  have "\<not> YearFromTime t < y"
  proof
    assume "YearFromTime t < y"
    then have "DayFromYear (YearFromTime t + 1) \<le> DayFromYear y"
      by (intro DayFromYear_mono) simp
    with b assms(1) show False by linarith
  qed
  moreover have "\<not> y < YearFromTime t"
  proof
    assume "y < YearFromTime t"
    then have "DayFromYear (y + 1) \<le> DayFromYear (YearFromTime t)"
      by (intro DayFromYear_mono) simp
    with b assms(2) show False by linarith
  qed
  ultimately show ?thesis by simp
qed

lemma MakeDay_spec:
  fixes year month :: int
  defines "ym \<equiv> year + month div 12" and "mn \<equiv> month mod 12"
  defines "t \<equiv> msPerDay * (MakeDay year month 1)"
  shows "YearFromTime t = ym \<and> MonthFromTime t = mn \<and> DateFromTime t = 1"
proof -
  define l :: int where "l = (if DaysInYear ym = 366 then 1 else 0)"
  have mn: "0 \<le> mn" "mn \<le> 11" by (simp_all add: mn_def)
  have d: "Day t = DayFromYear ym + DaysBeforeMonth l mn"
    by (simp add: t_def Day_def MakeDay_def Let_def ym_def mn_def l_def msPerDay_def)
  have r: "0 \<le> DaysBeforeMonth l mn" "DaysBeforeMonth l mn < DaysInYear ym"
    using DaysInYear_range [of ym] by (auto simp: DaysBeforeMonth_def l_def)
  have y: "YearFromTime t = ym"
    using r d DayFromYear_step [of ym] by (intro YearFromTime_unique) simp_all
  have leap: "InLeapYear t = l" by (simp add: InLeapYear_def y l_def)
  have dwy: "DayWithinYear t = DaysBeforeMonth l mn" by (simp add: DayWithinYear_def y d)
  have l01: "l = 0 \<or> l = 1" by (simp add: l_def)
  have cases: "mn = 0 \<or> mn = 1 \<or> mn = 2 \<or> mn = 3 \<or> mn = 4 \<or> mn = 5 \<or> mn = 6
      \<or> mn = 7 \<or> mn = 8 \<or> mn = 9 \<or> mn = 10 \<or> mn = 11"
    using mn by presburger
  have m: "MonthFromTime t = mn"
    unfolding MonthFromTime_def dwy leap Let_def
    using cases l01 by (auto simp: DaysBeforeMonth_def)
  have "DateFromTime t = 1"
    unfolding DateFromTime_eq dwy leap m by simp
  with y m show ?thesis by simp
qed

lemma timestamp_new_valid:
  assumes "valid_time now"
  shows "\<exists>v. timestamp (new_BlockChainBlock idx payload prev now) = Some v \<and> v mod 1000 = 0
            \<and> (0 \<le> now \<longrightarrow> 0 \<le> v)"
proof -
  obtain v where v: "timestamp (new_BlockChainBlock idx payload prev now) = Some v"
    using Date_UTC_fields_defined [OF assms] by (auto simp: timestamp_new)
  then have m: "v mod 1000 = 0"
    unfolding timestamp_new by (rule Date_UTC_multiple)
  have "0 \<le> v" if "0 \<le> now"
  proof -
    have "\<not> (0 \<le> getUTCFullYear now \<and> getUTCFullYear now \<le> 99)"
      using YearFromTime_epoch [OF that] by (simp add: getUTCFullYear_def)
    then have "timestamp (new_BlockChainBlock idx payload prev now) = Some (1000 * (now div 1000))"
      unfolding timestamp_new using TimeClip_truncated [OF assms] by (simp add: Date_UTC_fields)
    with v have "v = 1000 * (now div 1000)" by simp
    moreover have "0 \<le> now div 1000" using that by (simp add: pos_imp_zdiv_nonneg_iff)
    ultimately show ?thesis by simp
  qed
  then show ?thesis
    by (intro exI [of _ v] conjI impI) (simp_all add: v m)
qed

lemma addBlocks_origin:
  "addBlocks c calls h = (bs, h') \<Longrightarrow>
     \<forall>b \<in> set bs. \<exists>idx payload prev call.
        call \<in> set calls \<and> b = new_BlockChainBlock idx payload prev (snd call)"
proof (induction calls arbitrary: h bs h')
  case Nil
  then show ?case by simp
next
  case (Cons call calls)
  obtain s now where call: "call = (s, now)" by (cases call)
  obtain b h1 where step: "addBlock c s now h = (b, h1)" by (cases "addBlock c s now h")
  obtain bs1 h2 where rest: "addBlocks c calls h1 = (bs1, h2)" by (cases "addBlocks c calls h1")
  from Cons.prems call step rest have eq: "bs = b # bs1" by simp
  have b: "b = new_BlockChainBlock (index (chain_previousBlock c h) + 1) (Buffer_from_base64 s)
      (Some (chain_previousBlock c h)) (snd call)"
    using step call by (simp add: addBlock_def Let_def)
  from Cons.IH [OF rest] b show ?case
    unfolding eq by (metis list.set_intros(1,2) set_ConsD)
qed

text \<open>The value the constructor stores, for a clock whose UTC year is not in the range 0 to
  99 (which \<^verbatim>\<open>Date.UTC\<close> reads as 1900 to 1999): the time value of the clock without
  its sub-second part, in milliseconds.\<close>

lemma timestamp_value:
  assumes "valid_time now" and "\<not> (0 \<le> getUTCFullYear now \<and> getUTCFullYear now \<le> 99)"
  shows "timestamp (new_BlockChainBlock idx payload prev now) = Some (1000 * (now div 1000))"
  unfolding timestamp_new
  using TimeClip_truncated [OF assms(1)] Date_UTC_fields [OF assms(2)]
  by simp

lemma timestamp_addBlock:
  "timestamp (fst (addBlock c encoded now h)) =
     Date_UTC (getUTCFullYear now) (getUTCMonth now) (getUTCDate now)
              (getUTCHours now) (getUTCMinutes now) (getUTCSeconds now)"
  by (simp add: addBlock_def Let_def timestamp_new)

section \<open>The claims\<close>



text \<open>
  Claim C2 (genesis), as the specification states it: the first block appended to a fresh
  chain has an empty \<^verbatim>\<open>previousHash\<close> and index 0. The chain passes its genesis
  block to the constructor as the predecessor of the first block, so the first block's
  \<^verbatim>\<open>previousHash\<close> is the hash of the genesis block, which is not empty: the
  statement fails for a chain created at time 0 and an empty payload.
\<close>

theorem first_block_counterexample:
  "\<not> (let (c, h1) = createNewBlockChain 0 empty_store;
           (b, h2) = addBlock c [] 0 h1
       in previousHash b = [] \<and> index b = 0)"
proof -
  obtain c h1 where a: "createNewBlockChain 0 empty_store = (c, h1)"
    by (cases "createNewBlockChain 0 empty_store")
  obtain b h2 where s: "addBlock c [] 0 h1 = (b, h2)"
    by (cases "addBlock c [] 0 h1")
  have "chain_previousBlock c h1 = genesisBlock c"
    using createNewBlockChain_facts(1) [OF a] by (simp add: chain_previousBlock_def)
  then have "previousHash b = hash (genesisBlock c)"
    using addBlock_facts(5) [OF s] by (simp add: previousHash_Some)
  then have "previousHash b \<noteq> []"
    by (simp add: hash_not_empty)
  then show ?thesis using a s by simp
qed

text \<open>
  Claim C2, amended: the first block appended to a fresh chain has index 0, and its
  \<^verbatim>\<open>previousHash\<close> is the hash of the genesis block, a non-empty string; the empty
  \<^verbatim>\<open>previousHash\<close> is that of the genesis block itself.
\<close>

theorem first_block:
  assumes "createNewBlockChain now0 h0 = (c, h1)" and "addBlock c payload64 now h1 = (b, h2)"
  shows "previousHash b = hash (genesisBlock c) \<and> previousHash b \<noteq> [] \<and>
         previousHash (genesisBlock c) = [] \<and> index b = 0"
proof -
  note cf = createNewBlockChain_facts [OF assms(1)]
  have prev: "chain_previousBlock c h1 = genesisBlock c"
    using cf(1) by (simp add: chain_previousBlock_def)
  have "previousHash b = hash (genesisBlock c)"
    using addBlock_facts(5) [OF assms(2)] prev by (simp add: previousHash_Some)
  moreover have "index b = 0"
    using addBlock_facts(4) [OF assms(2)] prev cf(2) by simp
  moreover have "previousHash (genesisBlock c) = []"
    using cf(3) by (rule previousHash_None)
  ultimately show ?thesis by (simp add: hash_not_empty)
qed

theorem first_block_witness:
  "let (c, h1) = createNewBlockChain 1000 empty_store;
       (b, h2) = addBlock c ''dGVzdDE='' 2000 h1
   in previousHash b = hash (genesisBlock c) \<and> previousHash b \<noteq> [] \<and>
      previousHash (genesisBlock c) = [] \<and> index b = 0"
proof -
  obtain c h1 where a: "createNewBlockChain 1000 empty_store = (c, h1)"
    by (cases "createNewBlockChain 1000 empty_store")
  obtain b h2 where s: "addBlock c ''dGVzdDE='' 2000 h1 = (b, h2)"
    by (cases "addBlock c ''dGVzdDE='' 2000 h1")
  show ?thesis
    unfolding a s Let_def prod.case by (rule first_block [OF a s])
qed

text \<open>
  Claim C3 (hash). The \<^verbatim>\<open>hash\<close> getter of every block returns the Base64 rendering of
  the SHA-256 digest of the UTF-8 encoding of the string made of the index, the previous
  hash, the timestamp and the payload in Base64, separated by line feeds; the payload in
  Base64 is what the \<^verbatim>\<open>data\<close> getter returns.
\<close>

theorem hash_is_hash_spec:
  "hash b = hash_spec (index b) (previousHash b) (timestamp b) (data_field b) \<and>
   data b = Buffer_toString_base64 (data_field b)"
proof (cases b)
  case (BlockChainBlock idx payload prev ts)
  show ?thesis
    by (simp add: BlockChainBlock hash_spec_def data_def timestamp_def)
qed

theorem hash_is_hash_spec_witness:
  "hash (BlockChainBlock 0 [0x74, 0x65] None (Some 1000)) =
     hash_spec 0 [] (Some 1000) [0x74, 0x65]"
  using hash_is_hash_spec [of "BlockChainBlock 0 [0x74, 0x65] None (Some 1000)"]
  by (simp del: hash.simps add: timestamp_def)

text \<open>
  Claim C4 (timestamp). The constructor keeps the creation instant without its sub-second
  part, and \<^verbatim>\<open>timestamp\<close> is to return it as a UNIX timestamp in seconds; the interface
  documents the getter as \<^verbatim>\<open>The time of creation as UNIX timestamp (UTC)\<close>. The code
  departs from that: the constructor stores the value of \<^verbatim>\<open>Date.UTC\<close>, which counts
  milliseconds, and the getter returns it as it is. A block constructed 1500 ms after
  the epoch has the timestamp 1000, where the UNIX timestamp is 1; a block appended at
  2024-02-29T12:34:56.789Z has the timestamp 1709210096000, where the UNIX timestamp is
  1709210096.
\<close>

theorem timestamp_returns_milliseconds:
  "timestamp (new_BlockChainBlock 0 [] None 1500) = Some 1000 \<and>
   timestamp (new_BlockChainBlock 0 [] None 1500) \<noteq> Some (1500 div 1000) \<and>
   timestamp (fst (addBlock (fst (createNewBlockChain 1709210095123 empty_store))
      ''dGVzdDE='' 1709210096789 (snd (createNewBlockChain 1709210095123 empty_store))))
     = Some 1709210096000 \<and>
   timestamp (fst (addBlock (fst (createNewBlockChain 1709210095123 empty_store))
      ''dGVzdDE='' 1709210096789 (snd (createNewBlockChain 1709210095123 empty_store))))
     \<noteq> Some (1709210096789 div 1000)"
proof -
  have v: "valid_time 1500" by (simp add: valid_time_def)
  have y: "getUTCFullYear 1500 = 1970"
    by (simp add: getUTCFullYear_def YearFromTime_def Day_def DayFromYear_def msPerDay_def Let_def)
  have nq: "\<not> (0 \<le> getUTCFullYear 1500 \<and> getUTCFullYear 1500 \<le> 99)"
    unfolding y by simp
  have "timestamp (new_BlockChainBlock 0 [] None 1500) = Some (1000 * (1500 div 1000))"
    unfolding timestamp_new Date_UTC_fields [OF nq] by (rule TimeClip_truncated [OF v])
  then have 1: "timestamp (new_BlockChainBlock 0 [] None 1500) = Some 1000" by simp
  have v2: "valid_time 1709210096789" by (simp add: valid_time_def)
  have y2: "getUTCFullYear 1709210096789 = 2024"
    by (simp add: getUTCFullYear_def YearFromTime_def Day_def DayFromYear_def msPerDay_def Let_def)
  have nq2: "\<not> (0 \<le> getUTCFullYear 1709210096789 \<and> getUTCFullYear 1709210096789 \<le> 99)"
    unfolding y2 by simp
  have "timestamp (fst (addBlock (fst (createNewBlockChain 1709210095123 empty_store))
      ''dGVzdDE='' 1709210096789 (snd (createNewBlockChain 1709210095123 empty_store))))
     = Some (1000 * (1709210096789 div 1000))"
    unfolding timestamp_addBlock Date_UTC_fields [OF nq2] by (rule TimeClip_truncated [OF v2])
  then have 2: "timestamp (fst (addBlock (fst (createNewBlockChain 1709210095123 empty_store))
      ''dGVzdDE='' 1709210096789 (snd (createNewBlockChain 1709210095123 empty_store))))
     = Some 1709210096000" by simp
  show ?thesis unfolding 1 2 by simp
qed





text \<open>
  Claim C7 (round trip). Decoding the \<^verbatim>\<open>data\<close> of a block as Base64 gives the bytes the
  block was constructed with, for every byte sequence, the empty one included: for a block
  made by the constructor, for a block appended with the Base64 text of the bytes, and
  for a block appended with any string (its payload is what the string decodes to).
\<close>

theorem data_roundtrip:
  "Buffer_from_base64 (data (new_BlockChainBlock idx payload prev now)) = payload \<and>
   Buffer_from_base64 (data (fst (addBlock c (Buffer_toString_base64 payload) now h))) = payload \<and>
   Buffer_from_base64 (data (fst (addBlock c encoded now h))) = Buffer_from_base64 encoded"
  by (simp add: data_def addBlock_data_field base64_roundtrip)

theorem data_roundtrip_witness:
  "Buffer_from_base64 (data (new_BlockChainBlock 0 [] None 1000)) = [] \<and>
   Buffer_from_base64 (data (fst (addBlock
       \<lparr>blocks = 0, genesisBlock = new_BlockChainBlock (- 1) [] None 1000\<rparr>
       (Buffer_toString_base64 []) 1000 empty_store))) = [] \<and>
   Buffer_from_base64 (data (fst (addBlock
       \<lparr>blocks = 0, genesisBlock = new_BlockChainBlock (- 1) [] None 1000\<rparr>
       ''dGU='' 1000 empty_store))) = [0x74, 0x65]"
proof -
  have ex: "Buffer_from_base64 ''dGU='' = [0x74, 0x65]"
    by (simp add: Buffer_from_base64_def List.map_filter_simps unbase64_def)
  show ?thesis
    unfolding ex [symmetric]
    by (rule data_roundtrip [where payload = "[]" and encoded = "''dGU=''"])
qed



text \<open>
  Claim C9 (re-encoding). \<^verbatim>\<open>addBlock\<close> reads its argument as Base64 and stores the
  decoded bytes only; \<^verbatim>\<open>data\<close> is the Base64 text of these bytes. It equals the
  argument exactly when the argument is a text the encoder produces; otherwise it differs,
  as for an argument without its padding or with a blank in it.
\<close>

theorem data_is_reencoding:
  "data_field (fst (addBlock c encoded now h)) = Buffer_from_base64 encoded \<and>
   data (fst (addBlock c encoded now h)) = Buffer_toString_base64 (Buffer_from_base64 encoded) \<and>
   (data (fst (addBlock c encoded now h)) = encoded
      \<longleftrightarrow> (\<exists>bs. encoded = Buffer_toString_base64 bs)) \<and>
   data (fst (addBlock c ''dGVzdA'' now h)) = ''dGVzdA=='' \<and>
   data (fst (addBlock c ''dGV zdA=='' now h)) = ''dGVzdA==''"
proof -
  have ex1: "Buffer_from_base64 ''dGVzdA'' = [0x74, 0x65, 0x73, 0x74]"
    by (simp add: Buffer_from_base64_def List.map_filter_simps unbase64_def)
  have ex2: "Buffer_from_base64 ''dGV zdA=='' = [0x74, 0x65, 0x73, 0x74]"
    by (simp add: Buffer_from_base64_def List.map_filter_simps unbase64_def)
  have enc: "Buffer_toString_base64 [0x74, 0x65, 0x73, 0x74] = ''dGVzdA==''"
    by (simp add: base64_char_def base64_table_def)
  have iff: "Buffer_toString_base64 (Buffer_from_base64 encoded) = encoded
      \<longleftrightarrow> (\<exists>bs. encoded = Buffer_toString_base64 bs)"
  proof
    assume "Buffer_toString_base64 (Buffer_from_base64 encoded) = encoded"
    then show "\<exists>bs. encoded = Buffer_toString_base64 bs" by metis
  next
    assume "\<exists>bs. encoded = Buffer_toString_base64 bs"
    then show "Buffer_toString_base64 (Buffer_from_base64 encoded) = encoded"
      by (auto simp: base64_roundtrip)
  qed
  show ?thesis
    unfolding data_def addBlock_data_field ex1 ex2 enc using iff by simp
qed

theorem data_is_reencoding_witness:
  "data (fst (addBlock \<lparr>blocks = 0, genesisBlock = new_BlockChainBlock (- 1) [] None 1000\<rparr>
       ''dGVzdA'' 2000 empty_store)) = ''dGVzdA=='' \<and>
   data (fst (addBlock \<lparr>blocks = 0, genesisBlock = new_BlockChainBlock (- 1) [] None 1000\<rparr>
       ''dGVzdA'' 2000 empty_store)) \<noteq> ''dGVzdA''"
proof -
  have e: "data (fst (addBlock
       \<lparr>blocks = 0, genesisBlock = new_BlockChainBlock (- 1) [] None 1000\<rparr>
       ''dGVzdA'' 2000 empty_store)) = ''dGVzdA==''"
    using data_is_reencoding [where encoded = "''dGVzdA''"] by blast
  show ?thesis unfolding e by simp
qed

text \<open>
  Claim C10 (stored timestamps), as stated: the timestamp of every block is a non-negative
  number of milliseconds divisible by 1000. The value is negative for a block created
  before 1970: the genesis block of a chain created one millisecond before the epoch has
  the timestamp \<open>-1000\<close>.
\<close>

theorem timestamps_of_chain_counterexample:
  "\<not> (let (c, h1) = createNewBlockChain (- 1) empty_store
       in \<exists>v. timestamp (genesisBlock c) = Some v \<and> 0 \<le> v \<and> v mod 1000 = 0)"
proof -
  have v: "valid_time (- 1)" by (simp add: valid_time_def)
  have y: "getUTCFullYear (- 1) = 1969"
    by (simp add: getUTCFullYear_def YearFromTime_def Day_def DayFromYear_def msPerDay_def Let_def)
  have nq: "\<not> (0 \<le> getUTCFullYear (- 1) \<and> getUTCFullYear (- 1) \<le> 99)"
    unfolding y by simp
  have "timestamp (new_BlockChainBlock (- 1) [] None (- 1)) = Some (1000 * ((- 1) div 1000))"
    unfolding timestamp_new Date_UTC_fields [OF nq] by (rule TimeClip_truncated [OF v])
  then have "timestamp (new_BlockChainBlock (- 1) [] None (- 1)) = Some (- 1000)" by simp
  then show ?thesis
    by (simp add: createNewBlockChain_def new_array_def Let_def)
qed

text \<open>
  Claim C10, amended: in a chain made by any calls of \<^verbatim>\<open>addBlock\<close>, the timestamp of
  the genesis block and of every stored block is an integer number of milliseconds
  divisible by 1000 (never \<^verbatim>\<open>NaN\<close>), and it is non-negative when no block was
  created before the epoch.
\<close>

theorem timestamps_of_chain:
  assumes "createNewBlockChain now0 h0 = (c, h1)" and "addBlocks c calls h1 = (bs, h2)"
    and "valid_time now0" and "\<forall>call \<in> set calls. valid_time (snd call)"
  shows "(\<forall>b \<in> set (genesisBlock c # arrays h2 (blocks c)).
            \<exists>v. timestamp b = Some v \<and> v mod 1000 = 0) \<and>
         (0 \<le> now0 \<and> (\<forall>call \<in> set calls. 0 \<le> snd call) \<longrightarrow>
            (\<forall>b \<in> set (genesisBlock c # arrays h2 (blocks c)).
               \<exists>v. timestamp b = Some v \<and> 0 \<le> v))"
proof -
  have g: "genesisBlock c = new_BlockChainBlock (- 1) [] None now0"
    using assms(1) by (auto simp: createNewBlockChain_def new_array_def Let_def)
  have arr: "arrays h2 (blocks c) = bs" by (rule fresh_chain_linked(2) [OF assms(1,2)])
  note org = addBlocks_origin [OF assms(2)]
  have made: "\<exists>idx payload prev now. b = new_BlockChainBlock idx payload prev now \<and>
        valid_time now \<and> (now = now0 \<or> now \<in> snd ` set calls)"
    if "b \<in> set (genesisBlock c # bs)" for b
  proof (cases "b = genesisBlock c")
    case True
    then show ?thesis using g assms(3) by blast
  next
    case False
    with that have "b \<in> set bs" by simp
    with org obtain idx payload prev call where
      "call \<in> set calls" "b = new_BlockChainBlock idx payload prev (snd call)" by blast
    then show ?thesis using assms(4) by blast
  qed
  have 1: "\<exists>v. timestamp b = Some v \<and> v mod 1000 = 0"
    if "b \<in> set (genesisBlock c # bs)" for b
  proof -
    from made [OF that] obtain idx payload prev now where
      b: "b = new_BlockChainBlock idx payload prev now" and v: "valid_time now" by blast
    from timestamp_new_valid [OF v, of idx payload prev] obtain v where
      "timestamp b = Some v" "v mod 1000 = 0" unfolding b by auto
    then show ?thesis by (intro exI [of _ v]) simp
  qed
  have 2: "\<exists>v. timestamp b = Some v \<and> 0 \<le> v"
    if "b \<in> set (genesisBlock c # bs)" and pos: "0 \<le> now0" "\<forall>call \<in> set calls. 0 \<le> snd call"
    for b
  proof -
    from made [OF that(1)] obtain idx payload prev now where
      b: "b = new_BlockChainBlock idx payload prev now" and v: "valid_time now"
      and n: "now = now0 \<or> now \<in> snd ` set calls" by blast
    have "0 \<le> now" using n pos by auto
    with timestamp_new_valid [OF v, of idx payload prev] obtain v where
      "timestamp b = Some v" "0 \<le> v" unfolding b by auto
    then show ?thesis by (intro exI [of _ v]) simp
  qed
  show ?thesis
    unfolding arr
  proof (intro conjI ballI impI)
    fix b assume "b \<in> set (genesisBlock c # bs)"
    then show "\<exists>v. timestamp b = Some v \<and> v mod 1000 = 0" by (rule 1)
  next
    fix b assume "0 \<le> now0 \<and> (\<forall>call \<in> set calls. 0 \<le> snd call)"
      and "b \<in> set (genesisBlock c # bs)"
    then show "\<exists>v. timestamp b = Some v \<and> 0 \<le> v" using 2 by blast
  qed
qed

theorem timestamps_of_chain_witness:
  "let (c, h1) = createNewBlockChain 1500 empty_store;
       (bs, h2) = addBlocks c [(''dGVzdDE='', 2500), (''dGVzdDI='', 3999)] h1
   in valid_time 1500 \<and>
      list_all (\<lambda>call. valid_time (snd call) \<and> 0 \<le> snd call)
        [(''dGVzdDE='', 2500::int), (''dGVzdDI='', 3999)] \<and>
      list_all (\<lambda>b. \<exists>v. timestamp b = Some v \<and> v mod 1000 = 0)
        (genesisBlock c # arrays h2 (blocks c)) \<and>
      list_all (\<lambda>b. \<exists>v. timestamp b = Some v \<and> 0 \<le> v)
        (genesisBlock c # arrays h2 (blocks c))"
proof -
  obtain c h1 where a: "createNewBlockChain 1500 empty_store = (c, h1)"
    by (cases "createNewBlockChain 1500 empty_store")
  obtain bs h2 where b: "addBlocks c [(''dGVzdDE='', 2500), (''dGVzdDI='', 3999)] h1 = (bs, h2)"
    by (cases "addBlocks c [(''dGVzdDE='', 2500), (''dGVzdDI='', 3999)] h1")
  have v: "valid_time 1500" by (simp add: valid_time_def)
  have vs: "\<forall>call \<in> set [(''dGVzdDE='', 2500::int), (''dGVzdDI='', 3999)]. valid_time (snd call)"
    by (simp add: valid_time_def)
  have pos: "(0::int) \<le> 1500 \<and>
      (\<forall>call \<in> set [(''dGVzdDE='', 2500::int), (''dGVzdDI='', 3999)]. 0 \<le> snd call)"
    by simp
  note t = timestamps_of_chain [OF a b v vs]
  from t have 1: "\<forall>b \<in> set (genesisBlock c # arrays h2 (blocks c)).
      \<exists>v. timestamp b = Some v \<and> v mod 1000 = 0" by (rule conjunct1)
  from t have "0 \<le> (1500::int) \<and>
      (\<forall>call \<in> set [(''dGVzdDE='', 2500::int), (''dGVzdDI='', 3999)]. 0 \<le> snd call) \<longrightarrow>
      (\<forall>b \<in> set (genesisBlock c # arrays h2 (blocks c)).
      \<exists>v. timestamp b = Some v \<and> 0 \<le> v)" by (rule conjunct2)
  from this pos have 2: "\<forall>b \<in> set (genesisBlock c # arrays h2 (blocks c)).
      \<exists>v. timestamp b = Some v \<and> 0 \<le> v" by (rule mp)
  show ?thesis
    unfolding a b Let_def prod.case list_all_iff using v vs pos 1 2 by simp
qed

end
